theory Spec2Isabelle
  imports Main "HOL-Library.AList" "HOL-Library.Char_ord" "HOL-Library.List_Lexorder"
    "HOL-Library.Product_Lexorder"
begin

section \<open>Data model\<close>

text \<open>
  Nodes are string labels.  A Python dictionary is an association list whose keys are
  distinct (\<open>wf_graph\<close> below); \<open>map_of\<close> is the lookup.  The inner dictionaries of
  the graph map a neighbour to the weight of the edge, the outer dictionary maps a node
  to its inner dictionary.  Weights are Python integers, as in the graph of the module.
\<close>

type_synonym node = string
type_synonym adjacency = "(node \<times> int) list"
type_synonym graph = "(node \<times> adjacency) list"

text \<open>A frontier entry is the tuple \<open>(cost, current_node, path)\<close> of the source.\<close>

type_synonym entry = "int \<times> node \<times> node list"

text \<open>The cost of a result: an accumulated integer, or \<open>float('inf')\<close>.\<close>

datatype cost = Finite int | Infinity

fun cost_less :: "cost \<Rightarrow> cost \<Rightarrow> bool" where
  "cost_less (Finite a) (Finite b) = (a < b)"
| "cost_less (Finite a) Infinity = True"
| "cost_less Infinity c = False"

section \<open>The priority queue\<close>

text \<open>
  \<open>heapq\<close> keeps a binary heap in a list; \<open>heappop\<close> removes and returns the smallest
  item under Python's tuple comparison, which is the lexicographic order on
  \<open>(cost, node, path)\<close> with strings and lists compared lexicographically.  That order
  is total and two items that compare equal are the same tuple, so the item returned
  depends on the contents of the heap only.  The heap is therefore a list read as a bag.
  \<open>heappop\<close> is called on a non-empty heap only (the guard of the \<open>while\<close> loop).
\<close>

definition heappush :: "entry list \<Rightarrow> entry \<Rightarrow> entry list" where
  "heappush heap item = item # heap"

definition heappop :: "entry list \<Rightarrow> entry \<times> entry list" where
  "heappop heap = (let item = fold min (tl heap) (hd heap) in (item, remove1 item heap))"

section \<open>Dijkstra's algorithm\<close>

text \<open>
  The \<open>for\<close> loop over \<open>graph_copy[node].items()\<close>, guarded by \<open>node in graph_copy\<close>;
  \<open>visited\<close> already holds \<open>node\<close>.
\<close>

definition explore ::
  "graph \<Rightarrow> node set \<Rightarrow> int \<Rightarrow> node \<Rightarrow> node list \<Rightarrow> entry list \<Rightarrow> entry list" where
  "explore graph_copy visited cost node path heap =
     (case map_of graph_copy node of
        None \<Rightarrow> heap
      | Some neighbors \<Rightarrow>
          fold (\<lambda>(neighbor, weight) h.
                  if neighbor \<notin> visited
                  then heappush h (cost + weight, neighbor, path @ [neighbor])
                  else h)
               neighbors heap)"

text \<open>The \<open>while heap\<close> loop; \<open>dest\<close> is the parameter \<open>end\<close> of the source.\<close>

function dijkstra_loop :: "graph \<Rightarrow> node \<Rightarrow> entry list \<Rightarrow> node set \<Rightarrow> cost \<times> node list" where
  "dijkstra_loop graph_copy dest heap visited =
     (if heap = [] then (Infinity, [])
      else case heappop heap of
        ((cost, node, path), heap') \<Rightarrow>
          if node = dest then (Finite cost, path)
          else if node \<in> visited then dijkstra_loop graph_copy dest heap' visited
          else dijkstra_loop graph_copy dest
                 (explore graph_copy (insert node visited) cost node path heap')
                 (insert node visited))"
  by pat_completeness auto

termination dijkstra_loop
proof (relation "measures [\<lambda>(g, d, h, V). card (fst ` set g - V), \<lambda>(g, d, h, V). length h]",
    goal_cases)
  case 1
  show ?case by simp
next
  case (2 g d heap V x heap' c y n p)
  have "fold min (tl heap) (hd heap) = Min (set (hd heap # tl heap))"
    by (simp only: Min.set_eq_fold)
  also have "\<dots> \<in> set (hd heap # tl heap)"
    by (rule Min_in) auto
  finally have "fold min (tl heap) (hd heap) \<in> set heap"
    using 2(1) by simp
  then have "length (remove1 (fold min (tl heap) (hd heap)) heap) < length heap"
    using 2(1) by (simp add: length_remove1)
  moreover have "heap' = remove1 (fold min (tl heap) (hd heap)) heap"
    using 2(2) by (auto simp: heappop_def Let_def)
  ultimately show ?case by simp
next
  case (3 g d heap V x heap' c y n p)
  have "fold min (tl heap) (hd heap) = Min (set (hd heap # tl heap))"
    by (simp only: Min.set_eq_fold)
  also have "\<dots> \<in> set (hd heap # tl heap)"
    by (rule Min_in) auto
  finally have "fold min (tl heap) (hd heap) \<in> set heap"
    using 3(1) by simp
  then have "length (remove1 (fold min (tl heap) (hd heap)) heap) < length heap"
    using 3(1) by (simp add: length_remove1)
  moreover have "heap' = remove1 (fold min (tl heap) (hd heap)) heap"
    using 3(2) by (auto simp: heappop_def Let_def)
  ultimately have shorter: "length heap' < length heap" by simp
  show ?case
  proof (cases "n \<in> fst ` set g")
    case True
    have "fst ` set g - insert n V \<subset> fst ` set g - V"
      using True 3(6) by auto
    then have "card (fst ` set g - insert n V) < card (fst ` set g - V)"
      by (intro psubset_card_mono) auto
    then show ?thesis by simp
  next
    case False
    then have "map_of g n = None" by (simp add: map_of_eq_None_iff)
    then have e: "explore g (insert n V) c n p heap' = heap'" by (simp add: explore_def)
    have "fst ` set g - insert n V = fst ` set g - V" using False by auto
    then show ?thesis using shorter by (simp add: e)
  qed
qed

definition dijkstra :: "graph \<Rightarrow> node \<Rightarrow> node \<Rightarrow> cost \<times> node list" where
  "dijkstra graph_copy start dest = dijkstra_loop graph_copy dest [(0, start, [start])] {}"

text \<open>
  The same loop with a bound on the number of iterations: \<open>None\<close> when the bound is
  reached before the loop returns.  \<open>pending\<close> counts the adjacency entries of the keys
  not yet visited, an upper bound on the pushes still to come.
\<close>

definition degree :: "graph \<Rightarrow> node \<Rightarrow> nat" where
  "degree g n = (case map_of g n of None \<Rightarrow> 0 | Some neighbors \<Rightarrow> length neighbors)"

definition pending :: "graph \<Rightarrow> node set \<Rightarrow> nat" where
  "pending g V = (\<Sum>n \<in> fst ` set g - V. degree g n)"

fun dijkstra_fuel ::
  "nat \<Rightarrow> graph \<Rightarrow> node \<Rightarrow> entry list \<Rightarrow> node set \<Rightarrow> (cost \<times> node list) option" where
  "dijkstra_fuel 0 graph_copy dest heap visited = None"
| "dijkstra_fuel (Suc fuel) graph_copy dest heap visited =
     (if heap = [] then Some (Infinity, [])
      else case heappop heap of
        ((cost, node, path), heap') \<Rightarrow>
          if node = dest then Some (Finite cost, path)
          else if node \<in> visited then dijkstra_fuel fuel graph_copy dest heap' visited
          else dijkstra_fuel fuel graph_copy dest
                 (explore graph_copy (insert node visited) cost node path heap')
                 (insert node visited))"

section \<open>The second shortest path\<close>

text \<open>
  \<open>find_second_shortest_path\<close> deletes entries from dictionaries, so the inner
  dictionaries live in a store of objects (a list indexed by reference) and an outer
  dictionary maps a node to the reference of its inner dictionary.  \<open>dijkstra\<close> only
  reads its argument; it is applied to the contents the references point to.
\<close>

type_synonym ref = nat
type_synonym store = "adjacency list"
type_synonym graph_ref = "(node \<times> ref) list"

definition deref :: "store \<Rightarrow> graph_ref \<Rightarrow> graph" where
  "deref \<sigma> G = map (\<lambda>(node, r). (node, \<sigma> ! r)) G"

text \<open>Every reference of the outer dictionary points to an allocated object.\<close>

definition wf_store :: "store \<Rightarrow> graph_ref \<Rightarrow> bool" where
  "wf_store \<sigma> G = (\<forall>r \<in> snd ` set G. r < length \<sigma>)"

text \<open>
  \<open>{node: neighbors.copy() for node, neighbors in graph.items()}\<close>: each inner
  dictionary is copied into a fresh object at the end of the store.
\<close>

fun copy_graph :: "store \<Rightarrow> graph_ref \<Rightarrow> store \<times> graph_ref" where
  "copy_graph \<sigma> [] = (\<sigma>, [])"
| "copy_graph \<sigma> ((node, r) # rest) =
     (case copy_graph (\<sigma> @ [\<sigma> ! r]) rest of
        (\<sigma>', rest') \<Rightarrow> (\<sigma>', (node, length \<sigma>) # rest'))"

text \<open>\<open>if u in graph_copy and v in graph_copy[u]: del graph_copy[u][v]\<close>\<close>

definition del_edge :: "store \<Rightarrow> graph_ref \<Rightarrow> node \<Rightarrow> node \<Rightarrow> store" where
  "del_edge \<sigma> graph_copy u v =
     (case map_of graph_copy u of
        None \<Rightarrow> \<sigma>
      | Some r \<Rightarrow>
          if v \<in> fst ` set (\<sigma> ! r) then \<sigma>[r := AList.delete v (\<sigma> ! r)] else \<sigma>)"

text \<open>
  One iteration of the \<open>for i in range(len(shortest_path) - 1)\<close> loop.  The state is
  the store together with \<open>(second_best_cost, second_best_path)\<close>.
\<close>

definition second_step ::
  "graph_ref \<Rightarrow> node \<Rightarrow> node \<Rightarrow> node list \<Rightarrow> nat \<Rightarrow> store \<times> cost \<times> node list
     \<Rightarrow> store \<times> cost \<times> node list" where
  "second_step G start dest shortest_path i state =
     (case state of
        (\<sigma>, second_best_cost, second_best_path) \<Rightarrow>
          let u = shortest_path ! i;
              v = shortest_path ! (i + 1);
              (\<sigma>1, graph_copy) = copy_graph \<sigma> G;
              \<sigma>2 = del_edge \<sigma>1 graph_copy u v;
              \<sigma>3 = del_edge \<sigma>2 graph_copy v u;
              (cost, path) = dijkstra (deref \<sigma>3 graph_copy) start dest
          in if cost_less cost second_best_cost \<and> path \<noteq> shortest_path
             then (\<sigma>3, cost, path)
             else (\<sigma>3, second_best_cost, second_best_path))"

fun second_loop ::
  "graph_ref \<Rightarrow> node \<Rightarrow> node \<Rightarrow> node list \<Rightarrow> nat list \<Rightarrow> store \<times> cost \<times> node list
     \<Rightarrow> store \<times> cost \<times> node list" where
  "second_loop G start dest shortest_path [] state = state"
| "second_loop G start dest shortest_path (i # is) state =
     second_loop G start dest shortest_path is (second_step G start dest shortest_path i state)"

text \<open>The module-level \<open>graph\<close> is the pair of the store and the outer dictionary \<open>G\<close>.\<close>

definition find_second_shortest_path ::
  "store \<Rightarrow> graph_ref \<Rightarrow> node \<Rightarrow> node \<Rightarrow> store \<times> cost \<times> node list" where
  "find_second_shortest_path \<sigma> G start dest =
     (case dijkstra (deref \<sigma> G) start dest of
        (shortest_cost, shortest_path) \<Rightarrow>
          if shortest_path = [] then (\<sigma>, Infinity, [])
          else second_loop G start dest shortest_path [0 ..< length shortest_path - 1]
                 (\<sigma>, Infinity, []))"

text \<open>
  The graph \<open>g\<close> without the entries \<open>g[u][v]\<close> and \<open>g[v][u]\<close>: the symmetric deletion of
  the edge between \<open>u\<close> and \<open>v\<close>.
\<close>

definition remove_edge :: "graph \<Rightarrow> node \<Rightarrow> node \<Rightarrow> graph" where
  "remove_edge g u v = AList.map_entry v (AList.delete u) (AList.map_entry u (AList.delete v) g)"

text \<open>
  The result of the search once the edge between the nodes \<open>i\<close> and \<open>i + 1\<close> of the
  primary path is deleted, and the update of the best alternative by a candidate.  The
  loop of \<open>find_second_shortest_path\<close> is shown below to compute a fold of \<open>better\<close>
  over these candidates.
\<close>

definition candidate :: "graph \<Rightarrow> node \<Rightarrow> node \<Rightarrow> node list \<Rightarrow> nat \<Rightarrow> cost \<times> node list" where
  "candidate g s e sp i = dijkstra (remove_edge g (sp ! i) (sp ! (i + 1))) s e"

definition better :: "node list \<Rightarrow> cost \<times> node list \<Rightarrow> cost \<times> node list \<Rightarrow> cost \<times> node list" where
  "better sp cand best = (if cost_less (fst cand) (fst best) \<and> snd cand \<noteq> sp then cand else best)"

text \<open>
  A graph literal laid out in a store: one object per node, in the order of the keys.
\<close>

definition store_of :: "graph \<Rightarrow> store" where
  "store_of g = map snd g"

definition refs_of :: "graph \<Rightarrow> graph_ref" where
  "refs_of g = zip (map fst g) [0 ..< length g]"

section \<open>Paths and their cost\<close>

text \<open>
  \<open>weight g u v\<close> is the entry \<open>g[u][v]\<close> when both keys are present.  A path is a
  non-empty list of nodes whose consecutive pairs are entries of the adjacency mappings;
  its cost is the sum of the weights of those entries.
\<close>

definition weight :: "graph \<Rightarrow> node \<Rightarrow> node \<Rightarrow> int option" where
  "weight g u v = (case map_of g u of None \<Rightarrow> None | Some neighbors \<Rightarrow> map_of neighbors v)"

fun is_path :: "graph \<Rightarrow> node list \<Rightarrow> bool" where
  "is_path g [] = False"
| "is_path g [x] = True"
| "is_path g (x # y # r) = (weight g x y \<noteq> None \<and> is_path g (y # r))"

fun path_cost :: "graph \<Rightarrow> node list \<Rightarrow> int" where
  "path_cost g (x # y # r) = (case weight g x y of None \<Rightarrow> 0 | Some w \<Rightarrow> w) + path_cost g (y # r)"
| "path_cost g [x] = 0"
| "path_cost g [] = 0"

definition path_from_to :: "graph \<Rightarrow> node \<Rightarrow> node \<Rightarrow> node list \<Rightarrow> bool" where
  "path_from_to g s t p = (is_path g p \<and> hd p = s \<and> last p = t)"

text \<open>Every weight stored in the graph is non-negative.\<close>

definition nonneg :: "graph \<Rightarrow> bool" where
  "nonneg g = (\<forall>neighbors \<in> snd ` set g. \<forall>w \<in> snd ` set neighbors. 0 \<le> w)"

text \<open>The association lists are dictionaries: no key occurs twice.\<close>

definition wf_graph :: "graph \<Rightarrow> bool" where
  "wf_graph g = (distinct (map fst g) \<and> (\<forall>neighbors \<in> snd ` set g. distinct (map fst neighbors)))"

section \<open>Invariants of the search loop\<close>

text \<open>
  Every frontier entry \<open>(c, n, p)\<close> holds a path \<open>p\<close> of the graph from the start node to
  \<open>n\<close> without a repeated node, whose nodes before \<open>n\<close> are all visited; when the graph
  is a dictionary of dictionaries, \<open>c\<close> is the cost of \<open>p\<close>.
\<close>

definition entry_ok :: "graph \<Rightarrow> node \<Rightarrow> node set \<Rightarrow> entry \<Rightarrow> bool" where
  "entry_ok g s V x =
     (case x of (c, n, p) \<Rightarrow>
        path_from_to g s n p \<and> distinct p \<and> set (butlast p) \<subseteq> V \<and>
        (wf_graph g \<longrightarrow> path_cost g p = c))"

text \<open>
  The frontier covers the boundary of the visited set: for every path from the start
  node that leaves the visited set with its last edge (or is the start node alone, not
  yet visited), the frontier holds an entry for its last node that is no more expensive.
\<close>

definition frontier_ok :: "graph \<Rightarrow> node \<Rightarrow> entry list \<Rightarrow> node set \<Rightarrow> bool" where
  "frontier_ok g s heap V =
     (\<forall>q. path_from_to g s (last q) q \<and> last q \<notin> V \<and>
          (length q = 1 \<or> last (butlast q) \<in> V) \<longrightarrow>
          (\<exists>c p. (c, last q, p) \<in> set heap \<and> c \<le> path_cost g q))"

section \<open>The sample graph of the module\<close>

definition sample_graph :: graph where
  "sample_graph =
    [(''A'', [(''B'', 1), (''C'', 4), (''E'', 2)]),
     (''B'', [(''A'', 1), (''C'', 2), (''D'', 5)]),
     (''C'', [(''A'', 4), (''B'', 2), (''D'', 1), (''F'', 3)]),
     (''D'', [(''B'', 5), (''C'', 1), (''F'', 2), (''G'', 1)]),
     (''E'', [(''A'', 2), (''F'', 2), (''H'', 4)]),
     (''F'', [(''C'', 3), (''D'', 2), (''E'', 2), (''I'', 3)]),
     (''G'', [(''D'', 1), (''J'', 5)]),
     (''H'', [(''E'', 4), (''I'', 1)]),
     (''I'', [(''F'', 3), (''H'', 1), (''J'', 2)]),
     (''J'', [(''G'', 5), (''I'', 2)])]"

text \<open>A graph with the two components A, B and C, D.\<close>

definition two_components :: graph where
  "two_components =
    [(''A'', [(''B'', 1)]), (''B'', [(''A'', 1)]),
     (''C'', [(''D'', 1)]), (''D'', [(''C'', 1)])]"

text \<open>The chain A, B, C, whose edges are bridges.\<close>

definition chain :: graph where
  "chain = [(''A'', [(''B'', 1)]), (''B'', [(''A'', 1), (''C'', 2)]), (''C'', [(''B'', 2)])]"

section \<open>The priority queue returns a least item\<close>

lemma fold_min_Min: "fold min xs (x::entry) = Min (set (x # xs))"
  by (simp only: Min.set_eq_fold)

lemma fold_min_in: "fold min xs (x::entry) \<in> set (x # xs)"
  unfolding fold_min_Min by (rule Min_in) auto

lemma fold_min_le: "y \<in> set (x # xs) \<Longrightarrow> fold min xs (x::entry) \<le> y"
  unfolding fold_min_Min by (rule Min_le) auto

lemma heappop_in:
  assumes "heap \<noteq> []" and "heappop heap = (item, heap')"
  shows "item \<in> set heap"
proof -
  obtain x xs where h: "heap = x # xs" using assms(1) by (cases heap) auto
  have "item = fold min xs x" using assms(2) by (simp add: heappop_def h Let_def)
  then show ?thesis using fold_min_in [of xs x] by (simp add: h)
qed

lemma heappop_least:
  assumes "heap \<noteq> []" and "heappop heap = (item, heap')" and "y \<in> set heap"
  shows "item \<le> y"
proof -
  obtain x xs where h: "heap = x # xs" using assms(1) by (cases heap) auto
  have "item = fold min xs x" using assms(2) by (simp add: heappop_def h Let_def)
  then show ?thesis using fold_min_le [of y x xs] assms(3) by (simp add: h)
qed

lemma heappop_rest:
  assumes "heappop heap = (item, heap')"
  shows "heap' = remove1 item heap"
  using assms by (auto simp: heappop_def Let_def)

lemma heappop_length:
  assumes "heap \<noteq> []" and "heappop heap = (item, heap')"
  shows "length heap' < length heap"
proof -
  have "item \<in> set heap" using assms by (rule heappop_in)
  then show ?thesis
    using heappop_rest [OF assms(2)] assms(1) by (simp add: length_remove1)
qed

lemma explore_absent: "map_of graph_copy node = None \<Longrightarrow>
    explore graph_copy visited cost node path heap = heap"
  by (simp add: explore_def)

section \<open>One iteration of the search loop\<close>

lemma loop_empty: "dijkstra_loop g d [] V = (Infinity, [])"
  by simp

lemma loop_found:
  assumes "heap \<noteq> []" and "heappop heap = ((c, d, p), heap')"
  shows "dijkstra_loop g d heap V = (Finite c, p)"
  using assms by simp

lemma loop_skip:
  assumes "heap \<noteq> []" and "heappop heap = ((c, n, p), heap')" and "n \<noteq> d" and "n \<in> V"
  shows "dijkstra_loop g d heap V = dijkstra_loop g d heap' V"
  using assms by simp

lemma loop_visit:
  assumes "heap \<noteq> []" and "heappop heap = ((c, n, p), heap')" and "n \<noteq> d" and "n \<notin> V"
  shows "dijkstra_loop g d heap V =
         dijkstra_loop g d (explore g (insert n V) c n p heap') (insert n V)"
  using assms by simp

declare dijkstra_loop.simps [simp del]

lemma heappop_single: "heappop [x] = (x, [])"
  by (simp add: heappop_def)

section \<open>Paths built by appending\<close>

lemma is_path_nonempty: "is_path g p \<Longrightarrow> p \<noteq> []"
  by auto

lemma is_path_snoc:
  "p \<noteq> [] \<Longrightarrow> is_path g (p @ [v]) = (is_path g p \<and> weight g (last p) v \<noteq> None)"
  by (induction g p rule: is_path.induct) auto

lemma path_cost_snoc:
  "p \<noteq> [] \<Longrightarrow> path_cost g (p @ [v]) =
     path_cost g p + (case weight g (last p) v of None \<Rightarrow> 0 | Some w \<Rightarrow> w)"
  by (induction g p rule: path_cost.induct) auto

lemma push_fold_set:
  "set (fold (\<lambda>(v, w) h. if v \<notin> V then heappush h (c + w, v, p @ [v]) else h) nbrs heap) =
   set heap \<union> {(c + w, v, p @ [v]) | v w. (v, w) \<in> set nbrs \<and> v \<notin> V}"
proof (induction nbrs arbitrary: heap)
  case Nil
  show ?case by simp
next
  case (Cons a nbrs)
  obtain v w where a: "a = (v, w)" by (cases a)
  show ?case
    by (cases "v \<in> V") (auto simp: a Cons.IH heappush_def)
qed

lemma explore_set:
  "set (explore g V c n p heap) =
   set heap \<union> (case map_of g n of None \<Rightarrow> {}
                | Some nbrs \<Rightarrow> {(c + w, v, p @ [v]) | v w. (v, w) \<in> set nbrs \<and> v \<notin> V})"
  by (simp add: explore_def push_fold_set split: option.split)

lemma weight_present:
  assumes "map_of g n = Some nbrs" and "(v, w) \<in> set nbrs"
  shows "weight g n v \<noteq> None"
  using assms by (auto simp: weight_def map_of_eq_None_iff intro: rev_image_eqI)

lemma weight_wf:
  assumes "wf_graph g" and "map_of g n = Some nbrs" and "(v, w) \<in> set nbrs"
  shows "weight g n v = Some w"
proof -
  have "nbrs \<in> snd ` set g" using assms(2) by (auto dest: map_of_SomeD intro: rev_image_eqI)
  then have "distinct (map fst nbrs)" using assms(1) unfolding wf_graph_def by blast
  then have "map_of nbrs v = Some w" using assms(3) by simp
  then show ?thesis using assms(2) by (simp add: weight_def)
qed

section \<open>Every frontier entry holds a path\<close>

lemma entry_ok_mono: "entry_ok g s V x \<Longrightarrow> V \<subseteq> V' \<Longrightarrow> entry_ok g s V' x"
  by (auto simp: entry_ok_def)

lemma entry_ok_push:
  assumes ok: "entry_ok g s V (c, n, p)" and nb: "map_of g n = Some nbrs"
    and vw: "(v, w) \<in> set nbrs" and v: "v \<notin> insert n V"
  shows "entry_ok g s (insert n V) (c + w, v, p @ [v])"
proof -
  from ok have path: "is_path g p" "hd p = s" "last p = n" and dist: "distinct p"
    and vis: "set (butlast p) \<subseteq> V" and cost: "wf_graph g \<longrightarrow> path_cost g p = c"
    by (auto simp: entry_ok_def path_from_to_def)
  have ne: "p \<noteq> []" using path(1) by (rule is_path_nonempty)
  have setp: "set p \<subseteq> insert n V"
    using vis path(3) ne by (metis append_butlast_last_id insert_mono list.simps(15) rotate1.simps(2) set_rotate1)
  have "is_path g (p @ [v])"
    using ne path weight_present [OF nb vw] by (simp add: is_path_snoc)
  moreover have "hd (p @ [v]) = s" using ne path(2) by simp
  moreover have "distinct (p @ [v])" using dist setp v by auto
  moreover have "set (butlast (p @ [v])) \<subseteq> insert n V" using setp by (simp add: butlast_append)
  moreover have "wf_graph g \<longrightarrow> path_cost g (p @ [v]) = c + w"
    using ne cost path(3) weight_wf [OF _ nb vw] by (simp add: path_cost_snoc)
  ultimately show ?thesis by (simp add: entry_ok_def path_from_to_def)
qed

lemma loop_sound:
  assumes "\<forall>x \<in> set heap. entry_ok g s V x"
    and "dijkstra_loop g d heap V = (Finite c, p)"
  shows "path_from_to g s d p \<and> distinct p \<and> (wf_graph g \<longrightarrow> path_cost g p = c)"
  using assms
proof (induction g d heap V rule: dijkstra_loop.induct)
  case (1 g d heap V)
  show ?case
  proof (cases "heap = []")
    case True
    then show ?thesis using "1.prems"(2) by (simp add: loop_empty)
  next
    case ne: False
    obtain c0 n p0 heap' where pop: "heappop heap = ((c0, n, p0), heap')"
      by (metis prod_cases3 surj_pair)
    have mem: "(c0, n, p0) \<in> set heap" using ne pop by (rule heappop_in)
    then have ok: "entry_ok g s V (c0, n, p0)" using "1.prems"(1) by blast
    have rest: "set heap' \<subseteq> set heap"
      using heappop_rest [OF pop] set_remove1_subset [of "(c0, n, p0)" heap] by simp
    show ?thesis
    proof (cases "n = d")
      case True
      then have "dijkstra_loop g d heap V = (Finite c0, p0)"
        using loop_found [OF ne] pop by simp
      then have "c0 = c" "p0 = p" using "1.prems"(2) by simp_all
      then show ?thesis using ok True by (simp add: entry_ok_def)
    next
      case nd: False
      show ?thesis
      proof (cases "n \<in> V")
        case True
        have "dijkstra_loop g d heap' V = (Finite c, p)"
          using loop_skip [OF ne pop nd True] "1.prems"(2) by simp
        moreover have "\<forall>x \<in> set heap'. entry_ok g s V x"
          using rest "1.prems"(1) by blast
        ultimately show ?thesis
          using "1.IH"(1) [OF ne pop [symmetric] refl refl nd True] by blast
      next
        case False
        let ?V = "insert n V"
        let ?h = "explore g ?V c0 n p0 heap'"
        have "dijkstra_loop g d ?h ?V = (Finite c, p)"
          using loop_visit [OF ne pop nd False] "1.prems"(2) by simp
        moreover have "\<forall>x \<in> set ?h. entry_ok g s ?V x"
        proof
          fix x assume x: "x \<in> set ?h"
          show "entry_ok g s ?V x"
          proof (cases "x \<in> set heap'")
            case True
            then have "entry_ok g s V x" using rest "1.prems"(1) by blast
            then show ?thesis by (rule entry_ok_mono) auto
          next
            case False
            then obtain nbrs v w where "map_of g n = Some nbrs" "(v, w) \<in> set nbrs"
              "v \<notin> ?V" "x = (c0 + w, v, p0 @ [v])"
              using x by (auto simp: explore_set split: option.splits)
            then show ?thesis using entry_ok_push [OF ok] by blast
          qed
        qed
        ultimately show ?thesis
          using "1.IH"(2) [OF ne pop [symmetric] refl refl nd False] by blast
      qed
    qed
  qed
qed

section \<open>The frontier covers the boundary of the visited set\<close>

lemma weight_nonneg:
  assumes "nonneg g" and "weight g u v = Some w"
  shows "0 \<le> w"
proof -
  obtain nbrs where nb: "map_of g u = Some nbrs" and w: "map_of nbrs v = Some w"
    using assms(2) by (auto simp: weight_def split: option.splits)
  have "nbrs \<in> snd ` set g" using nb by (auto dest: map_of_SomeD intro: rev_image_eqI)
  moreover have "w \<in> snd ` set nbrs" using w by (auto dest: map_of_SomeD intro: rev_image_eqI)
  ultimately show ?thesis using assms(1) unfolding nonneg_def by blast
qed

lemma path_cost_snoc_le:
  assumes "nonneg g" and "p \<noteq> []"
  shows "path_cost g p \<le> path_cost g (p @ [v])"
proof (cases "weight g (last p) v")
  case None
  then show ?thesis using assms(2) by (simp add: path_cost_snoc)
next
  case (Some w)
  then show ?thesis
    using assms(2) weight_nonneg [OF assms(1) Some] by (simp add: path_cost_snoc)
qed

lemma frontier_entry:
  assumes nn: "nonneg g" and fr: "frontier_ok g s heap V"
  shows "path_from_to g s t q \<Longrightarrow> t \<notin> V \<Longrightarrow>
         \<exists>c n p. (c, n, p) \<in> set heap \<and> c \<le> path_cost g q"
proof (induction q arbitrary: t rule: rev_induct)
  case Nil
  then show ?case by (simp add: path_from_to_def)
next
  case (snoc x r)
  have t: "t = x" using snoc.prems(1) by (simp add: path_from_to_def)
  show ?case
  proof (cases "r = []")
    case True
    then have "path_from_to g s (last (r @ [x])) (r @ [x]) \<and> last (r @ [x]) \<notin> V \<and>
            (length (r @ [x]) = 1 \<or> last (butlast (r @ [x])) \<in> V)"
      using snoc.prems t by simp
    then have "\<exists>c p. (c, last (r @ [x]), p) \<in> set heap \<and> c \<le> path_cost g (r @ [x])"
      using fr unfolding frontier_ok_def by blast
    then show ?thesis by blast
  next
    case ne: False
    have pr: "path_from_to g s (last r) r"
      using snoc.prems(1) ne by (simp add: path_from_to_def is_path_snoc)
    show ?thesis
    proof (cases "last r \<in> V")
      case True
      have "path_from_to g s (last (r @ [x])) (r @ [x]) \<and> last (r @ [x]) \<notin> V \<and>
            (length (r @ [x]) = 1 \<or> last (butlast (r @ [x])) \<in> V)"
        using snoc.prems t True by simp
      then have "\<exists>c p. (c, last (r @ [x]), p) \<in> set heap \<and> c \<le> path_cost g (r @ [x])"
        using fr unfolding frontier_ok_def by blast
      then show ?thesis by blast
    next
      case False
      obtain c n p where "(c, n, p) \<in> set heap" "c \<le> path_cost g r"
        using snoc.IH [OF pr False] by blast
      moreover have "path_cost g r \<le> path_cost g (r @ [x])"
        using nn ne by (rule path_cost_snoc_le)
      ultimately show ?thesis by (meson order_trans)
    qed
  qed
qed

lemma entry_le_cost: "((c::int, n::node, p::node list) \<le> (c', n', p')) \<Longrightarrow> c \<le> c'"
  by (auto simp: less_eq_prod_def)

lemma popped_le_path:
  assumes nn: "nonneg g" and fr: "frontier_ok g s heap V"
    and ne: "heap \<noteq> []" and pop: "heappop heap = ((c, n, p), heap')"
    and q: "path_from_to g s t q" and t: "t \<notin> V"
  shows "c \<le> path_cost g q"
proof -
  obtain c' n' p' where e: "(c', n', p') \<in> set heap" and le: "c' \<le> path_cost g q"
    using frontier_entry [OF nn fr q t] by blast
  have "(c, n, p) \<le> (c', n', p')" using ne pop e by (rule heappop_least)
  then have "c \<le> c'" by (rule entry_le_cost)
  then show ?thesis using le by simp
qed

lemma heappop_others:
  assumes "heappop heap = (item, heap')" and "x \<in> set heap" and "x \<noteq> item"
  shows "x \<in> set heap'"
  using assms heappop_rest [OF assms(1)] by simp

lemma frontier_skip:
  assumes fr: "frontier_ok g s heap V" and pop: "heappop heap = ((c, n, p), heap')"
    and n: "n \<in> V"
  shows "frontier_ok g s heap' V"
  unfolding frontier_ok_def
proof (intro allI impI)
  fix q
  assume q: "path_from_to g s (last q) q \<and> last q \<notin> V \<and>
             (length q = 1 \<or> last (butlast q) \<in> V)"
  then obtain c' p' where e: "(c', last q, p') \<in> set heap" and le: "c' \<le> path_cost g q"
    using fr unfolding frontier_ok_def by blast
  have "(c', last q, p') \<noteq> (c, n, p)" using q n by auto
  then have "(c', last q, p') \<in> set heap'" using heappop_others [OF pop e] by simp
  then show "\<exists>c p. (c, last q, p) \<in> set heap' \<and> c \<le> path_cost g q" using le by blast
qed

lemma frontier_visit:
  assumes nn: "nonneg g" and fr: "frontier_ok g s heap V"
    and ne: "heap \<noteq> []" and pop: "heappop heap = ((c, n, p), heap')"
    and n: "n \<notin> V"
  shows "frontier_ok g s (explore g (insert n V) c n p heap') (insert n V)"
  unfolding frontier_ok_def
proof (intro allI impI)
  fix q
  let ?V = "insert n V"
  let ?h = "explore g ?V c n p heap'"
  assume q: "path_from_to g s (last q) q \<and> last q \<notin> ?V \<and>
             (length q = 1 \<or> last (butlast q) \<in> ?V)"
  show "\<exists>c p. (c, last q, p) \<in> set ?h \<and> c \<le> path_cost g q"
  proof (cases "length q = 1 \<or> last (butlast q) \<in> V")
    case True
    then obtain c' p' where e: "(c', last q, p') \<in> set heap" and le: "c' \<le> path_cost g q"
      using fr q unfolding frontier_ok_def by blast
    have "(c', last q, p') \<noteq> (c, n, p)" using q by auto
    then have "(c', last q, p') \<in> set heap'" using heappop_others [OF pop e] by simp
    then have "(c', last q, p') \<in> set ?h" by (simp add: explore_set)
    then show ?thesis using le by blast
  next
    case False
    then have len: "length q \<noteq> 1" and pen: "last (butlast q) = n" using q by auto
    have qne: "q \<noteq> []" using q by (auto simp: path_from_to_def)
    define r where "r = butlast q"
    define u where "u = last q"
    have q_eq: "q = r @ [u]" using qne by (simp add: r_def u_def)
    have rne: "r \<noteq> []" using len q_eq by (cases r) auto
    have lr: "last r = n" using pen by (simp add: r_def)
    have pr: "path_from_to g s n r" and edge: "weight g n u \<noteq> None"
      using q rne lr by (auto simp: q_eq path_from_to_def is_path_snoc)
    obtain w where w: "weight g n u = Some w" using edge by blast
    obtain nbrs where nb: "map_of g n = Some nbrs" and mw: "map_of nbrs u = Some w"
      using w by (auto simp: weight_def split: option.splits)
    have "(u, w) \<in> set nbrs" using mw by (rule map_of_SomeD)
    moreover have "u \<notin> ?V" using q by (simp add: u_def)
    ultimately have "(c + w, u, p @ [u]) \<in> set ?h"
      by (auto simp: explore_set nb)
    moreover have "c \<le> path_cost g r"
      using popped_le_path [OF nn fr ne pop pr n] .
    then have "c + w \<le> path_cost g q"
      using rne lr w by (simp add: q_eq path_cost_snoc)
    ultimately show ?thesis by (auto simp: u_def)
  qed
qed

lemma frontier_init: "frontier_ok g s [(0, s, [s])] {}"
  unfolding frontier_ok_def
proof (intro allI impI)
  fix q
  assume q: "path_from_to g s (last q) q \<and> last q \<notin> {} \<and>
             (length q = 1 \<or> last (butlast q) \<in> {})"
  then have "length q = 1" by simp
  then obtain x where "q = [x]" by (cases q) auto
  then have "q = [s]" using q by (simp add: path_from_to_def)
  then show "\<exists>c p. (c, last q, p) \<in> set [(0, s, [s])] \<and> c \<le> path_cost g q" by simp
qed

lemma loop_complete:
  assumes "nonneg g" and "frontier_ok g s heap V" and "d \<notin> V" and "path_from_to g s d q"
  shows "\<exists>c p. dijkstra_loop g d heap V = (Finite c, p) \<and> c \<le> path_cost g q"
  using assms
proof (induction g d heap V rule: dijkstra_loop.induct)
  case (1 g d heap V)
  note nn = "1.prems"(1) and fr = "1.prems"(2) and dV = "1.prems"(3) and q = "1.prems"(4)
  have ne: "heap \<noteq> []"
    using frontier_entry [OF nn fr q dV] by auto
  obtain c0 n p0 heap' where pop: "heappop heap = ((c0, n, p0), heap')"
    by (metis prod_cases3 surj_pair)
  show ?case
  proof (cases "n = d")
    case True
    then have "dijkstra_loop g d heap V = (Finite c0, p0)"
      using loop_found [OF ne] pop by simp
    moreover have "c0 \<le> path_cost g q"
      using popped_le_path [OF nn fr ne pop q dV] .
    ultimately show ?thesis by simp
  next
    case nd: False
    show ?thesis
    proof (cases "n \<in> V")
      case True
      have "frontier_ok g s heap' V" using fr pop True by (rule frontier_skip)
      then show ?thesis
        using "1.IH"(1) [OF ne pop [symmetric] refl refl nd True nn _ dV q]
          loop_skip [OF ne pop nd True] by simp
    next
      case False
      have "frontier_ok g s (explore g (insert n V) c0 n p0 heap') (insert n V)"
        using nn fr ne pop False by (rule frontier_visit)
      moreover have "d \<notin> insert n V" using dV nd by simp
      ultimately show ?thesis
        using "1.IH"(2) [OF ne pop [symmetric] refl refl nd False nn _ _ q]
          loop_visit [OF ne pop nd False] by simp
    qed
  qed
qed

lemma loop_infinite: "dijkstra_loop g d heap V = (Infinity, p) \<Longrightarrow> p = []"
proof (induction g d heap V rule: dijkstra_loop.induct)
  case (1 g d heap V)
  show ?case
  proof (cases "heap = []")
    case True
    then show ?thesis using "1.prems" by (simp add: loop_empty)
  next
    case ne: False
    obtain c0 n p0 heap' where pop: "heappop heap = ((c0, n, p0), heap')"
      by (metis prod_cases3 surj_pair)
    show ?thesis
    proof (cases "n = d")
      case True
      then show ?thesis using loop_found [OF ne, of c0 d p0 heap' g V] pop "1.prems" by simp
    next
      case nd: False
      show ?thesis
      proof (cases "n \<in> V")
        case True
        then show ?thesis
          using "1.IH"(1) [OF ne pop [symmetric] refl refl nd True]
            loop_skip [OF ne pop nd True] "1.prems" by simp
      next
        case False
        then show ?thesis
          using "1.IH"(2) [OF ne pop [symmetric] refl refl nd False]
            loop_visit [OF ne pop nd False] "1.prems" by simp
      qed
    qed
  qed
qed

section \<open>Soundness and optimality of the search\<close>

lemma entry_ok_seed: "entry_ok g s {} (0, s, [s])"
  by (simp add: entry_ok_def path_from_to_def)

lemma dijkstra_sound:
  assumes "dijkstra g s e = (Finite c, p)"
  shows "path_from_to g s e p \<and> distinct p \<and> (wf_graph g \<longrightarrow> path_cost g p = c)"
proof (rule loop_sound)
  show "\<forall>x \<in> set [(0, s, [s])]. entry_ok g s {} x" by (simp add: entry_ok_seed)
  show "dijkstra_loop g e [(0, s, [s])] {} = (Finite c, p)"
    using assms by (simp add: dijkstra_def)
qed

lemma dijkstra_complete:
  assumes "nonneg g" and "path_from_to g s e q"
  shows "\<exists>c p. dijkstra g s e = (Finite c, p) \<and> c \<le> path_cost g q"
  unfolding dijkstra_def using assms(1) frontier_init _ assms(2) by (rule loop_complete) simp

lemma dijkstra_cases:
  obtains "dijkstra g s e = (Infinity, [])" | c p where "dijkstra g s e = (Finite c, p)"
proof (cases "dijkstra g s e")
  case (Pair a p)
  show ?thesis
  proof (cases a)
    case (Finite c)
    then show ?thesis using Pair that(2) by simp
  next
    case Infinity
    then have "p = []" using Pair loop_infinite [of g e "[(0, s, [s])]" "{}" p]
      by (simp add: dijkstra_def)
    then show ?thesis using Pair Infinity that(1) by simp
  qed
qed

lemma dijkstra_no_path:
  assumes "\<not> (\<exists>q. path_from_to g s e q)"
  shows "dijkstra g s e = (Infinity, [])"
proof (cases g s e rule: dijkstra_cases)
  case 1
  then show ?thesis .
next
  case (2 c p)
  then have "path_from_to g s e p" using dijkstra_sound by blast
  then show ?thesis using assms by blast
qed

text \<open>A path that reaches a node other than its first one enters it by an edge.\<close>

lemma path_enters:
  assumes "path_from_to g s e q" and "s \<noteq> e"
  shows "\<exists>u. weight g u e \<noteq> None"
proof -
  have ne: "q \<noteq> []" using assms(1) by (auto simp: path_from_to_def)
  then obtain r where q: "q = r @ [e]"
    using assms(1) by (metis append_butlast_last_id path_from_to_def)
  have "r \<noteq> []" using assms q by (auto simp: path_from_to_def)
  then have "weight g (last r) e \<noteq> None"
    using assms(1) by (simp add: q path_from_to_def is_path_snoc)
  then show ?thesis by blast
qed

lemma path_leaves:
  assumes "path_from_to g s e q" and "s \<noteq> e"
  shows "map_of g s \<noteq> None"
proof (cases q)
  case Nil
  then show ?thesis using assms(1) by (simp add: path_from_to_def)
next
  case (Cons x r)
  then have x: "x = s" using assms(1) by (simp add: path_from_to_def)
  show ?thesis
  proof (cases r)
    case Nil
    then show ?thesis using assms Cons by (auto simp: path_from_to_def)
  next
    case (Cons y r')
    then have "weight g s y \<noteq> None"
      using assms(1) \<open>q = x # r\<close> x by (simp add: path_from_to_def)
    then show ?thesis by (auto simp: weight_def split: option.splits)
  qed
qed

lemma not_neighbor_no_weight:
  assumes "\<forall>nbrs \<in> snd ` set g. e \<notin> fst ` set nbrs"
  shows "weight g u e = None"
proof (cases "map_of g u")
  case None
  then show ?thesis by (simp add: weight_def)
next
  case (Some nbrs)
  then have "nbrs \<in> snd ` set g" by (auto dest: map_of_SomeD intro: rev_image_eqI)
  then have "e \<notin> fst ` set nbrs" using assms by blast
  then show ?thesis using Some by (simp add: weight_def map_of_eq_None_iff)
qed

text \<open>A path never leaves a set of nodes that is closed under the edges.\<close>

lemma path_stays:
  "\<forall>u \<in> S. \<forall>v. weight g u v \<noteq> None \<longrightarrow> v \<in> S \<Longrightarrow> is_path g q \<Longrightarrow> hd q \<in> S \<Longrightarrow>
   last q \<in> S"
  by (induction g q rule: is_path.induct) auto

section \<open>Evaluations on concrete graphs\<close>

lemma sample_wf: "wf_graph sample_graph"
  by code_simp

lemma sample_nonneg: "nonneg sample_graph"
  by code_simp

lemma sample_A_G:
  "dijkstra sample_graph ''A'' ''G'' = (Finite 5, [''A'', ''B'', ''C'', ''D'', ''G''])"
  by code_simp

lemma sample_path_A_C_D_G: "path_from_to sample_graph ''A'' ''G'' [''A'', ''C'', ''D'', ''G'']"
  by code_simp

lemma sample_no_Z:
  "map_of sample_graph ''Z'' = None \<and> (\<forall>nbrs \<in> snd ` set sample_graph. ''Z'' \<notin> fst ` set nbrs)"
  by code_simp

lemma two_components_closed:
  "\<forall>u \<in> {''A'', ''B''}. \<forall>v. weight two_components u v \<noteq> None \<longrightarrow> v \<in> {''A'', ''B''}"
  by (simp add: weight_def two_components_def)

lemma two_components_no_path: "\<not> (\<exists>q. path_from_to two_components ''A'' ''C'' q)"
proof
  assume "\<exists>q. path_from_to two_components ''A'' ''C'' q"
  then obtain q where "is_path two_components q" "hd q = ''A''" "last q = ''C''"
    by (auto simp: path_from_to_def)
  then have "''C'' \<in> {''A'', ''B''}"
    using path_stays [OF two_components_closed, of q] by simp
  then show False by simp
qed

section \<open>The store: copies and deletions\<close>

lemma frame_keeps:
  assumes "take (length \<sigma>) \<sigma>' = \<sigma>" and "wf_store \<sigma> G"
  shows "wf_store \<sigma>' G" and "deref \<sigma>' G = deref \<sigma> G"
proof -
  have len: "length \<sigma> \<le> length \<sigma>'"
    using assms(1) by (metis length_take min.cobounded1)
  have same: "\<sigma>' ! r = \<sigma> ! r" if "r < length \<sigma>" for r
    using assms(1) that by (metis nth_take)
  show "wf_store \<sigma>' G" using assms(2) len by (auto simp: wf_store_def)
  show "deref \<sigma>' G = deref \<sigma> G"
    using assms(2) same by (auto simp: deref_def wf_store_def intro: rev_image_eqI)
qed

lemma copy_graph_props:
  assumes "wf_store \<sigma> G" and "copy_graph \<sigma> G = (\<sigma>', G')"
  shows "take (length \<sigma>) \<sigma>' = \<sigma> \<and> deref \<sigma>' G' = deref \<sigma> G \<and> distinct (map snd G') \<and>
         (\<forall>r \<in> snd ` set G'. length \<sigma> \<le> r \<and> r < length \<sigma>')"
  using assms
proof (induction G arbitrary: \<sigma> \<sigma>' G')
  case Nil
  then show ?case by (simp add: deref_def)
next
  case (Cons a rest)
  obtain n r where a: "a = (n, r)" by (cases a)
  obtain \<sigma>1 rest' where c: "copy_graph (\<sigma> @ [\<sigma> ! r]) rest = (\<sigma>1, rest')"
    by (cases "copy_graph (\<sigma> @ [\<sigma> ! r]) rest")
  have res: "\<sigma>' = \<sigma>1" "G' = (n, length \<sigma>) # rest'"
    using Cons.prems(2) by (simp_all add: a c)
  have r: "r < length \<sigma>" and wfr: "wf_store \<sigma> rest"
    using Cons.prems(1) by (simp_all add: a wf_store_def)
  have wf1: "wf_store (\<sigma> @ [\<sigma> ! r]) rest"
    using wfr by (auto simp: wf_store_def)
  have ih: "take (length (\<sigma> @ [\<sigma> ! r])) \<sigma>1 = \<sigma> @ [\<sigma> ! r]"
    "deref \<sigma>1 rest' = deref (\<sigma> @ [\<sigma> ! r]) rest" "distinct (map snd rest')"
    "\<forall>r' \<in> snd ` set rest'. length (\<sigma> @ [\<sigma> ! r]) \<le> r' \<and> r' < length \<sigma>1"
    using Cons.IH [OF wf1 c] by simp_all
  have "length (take (Suc (length \<sigma>)) \<sigma>1) = Suc (length \<sigma>)"
    using ih(1) by simp
  then have len1: "length \<sigma> < length \<sigma>1" by simp
  have "take (length \<sigma>) (take (Suc (length \<sigma>)) \<sigma>1) = take (length \<sigma>) (\<sigma> @ [\<sigma> ! r])"
    using ih(1) by simp
  then have t1: "take (length \<sigma>) \<sigma>1 = \<sigma>" by (simp add: min_def)
  have "take (Suc (length \<sigma>)) \<sigma>1 ! length \<sigma> = (\<sigma> @ [\<sigma> ! r]) ! length \<sigma>"
    using ih(1) by simp
  then have at: "\<sigma>1 ! length \<sigma> = \<sigma> ! r" by simp
  have d: "deref (\<sigma> @ [\<sigma> ! r]) rest = deref \<sigma> rest"
    by (rule frame_keeps(2) [OF _ wfr]) simp
  have "deref \<sigma>' G' = deref \<sigma> (a # rest)"
    using ih(2) d at by (simp add: res a deref_def)
  moreover have "distinct (map snd G')"
    using ih(3,4) by (auto simp: res)
  moreover have "\<forall>r' \<in> snd ` set G'. length \<sigma> \<le> r' \<and> r' < length \<sigma>'"
    using ih(4) len1 by (auto simp: res)
  ultimately show ?case using t1 by (simp add: res)
qed

lemma del_edge_alt:
  "del_edge \<sigma> gc u v =
     (case map_of gc u of None \<Rightarrow> \<sigma> | Some r \<Rightarrow> \<sigma>[r := AList.delete v (\<sigma> ! r)])"
  by (simp add: del_edge_def split: option.split)

lemma del_edge_frame:
  assumes "\<forall>r \<in> snd ` set gc. L \<le> r"
  shows "take L (del_edge \<sigma> gc u v) = take L \<sigma>" and "length (del_edge \<sigma> gc u v) = length \<sigma>"
proof -
  show "length (del_edge \<sigma> gc u v) = length \<sigma>"
    by (simp add: del_edge_alt split: option.split)
  show "take L (del_edge \<sigma> gc u v) = take L \<sigma>"
  proof (cases "map_of gc u")
    case None
    then show ?thesis by (simp add: del_edge_alt)
  next
    case (Some r)
    then have "r \<in> snd ` set gc" by (auto dest: map_of_SomeD intro: rev_image_eqI)
    then have "L \<le> r" using assms by blast
    then show ?thesis using Some by (simp add: del_edge_alt)
  qed
qed

lemma map_entry_absent: "k \<notin> fst ` set xs \<Longrightarrow> AList.map_entry k f xs = xs"
  by (induction xs) auto

lemma deref_keys: "map fst (deref \<sigma> gc) = map fst gc"
  by (induction gc) (auto simp: deref_def)

lemma deref_untouched: "r \<notin> snd ` set gc \<Longrightarrow> deref (\<sigma>[r := x]) gc = deref \<sigma> gc"
  by (induction gc) (auto simp: deref_def)

lemma deref_update:
  "distinct (map snd gc) \<Longrightarrow> map_of gc u = Some r \<Longrightarrow> r < length \<sigma> \<Longrightarrow>
   deref (\<sigma>[r := f (\<sigma> ! r)]) gc = AList.map_entry u f (deref \<sigma> gc)"
proof (induction gc)
  case Nil
  then show ?case by simp
next
  case (Cons a gc)
  obtain n r0 where a: "a = (n, r0)" by (cases a)
  show ?case
  proof (cases "n = u")
    case True
    then have "r0 = r" using Cons.prems(2) by (simp add: a)
    moreover have "r \<notin> snd ` set gc" using Cons.prems(1) \<open>r0 = r\<close> by (simp add: a)
    ultimately show ?thesis
      using True Cons.prems(3) deref_untouched [of r gc \<sigma>] by (simp add: a deref_def)
  next
    case False
    then have m: "map_of gc u = Some r" using Cons.prems(2) by (simp add: a)
    then have "r \<in> snd ` set gc" by (auto dest: map_of_SomeD intro: rev_image_eqI)
    then have "r0 \<noteq> r" using Cons.prems(1) by (auto simp: a)
    then show ?thesis
      using False Cons.IH [OF _ m Cons.prems(3)] Cons.prems(1) by (simp add: a deref_def)
  qed
qed

lemma del_edge_deref:
  assumes "distinct (map snd gc)" and "\<forall>r \<in> snd ` set gc. r < length \<sigma>"
  shows "deref (del_edge \<sigma> gc u v) gc = AList.map_entry u (AList.delete v) (deref \<sigma> gc)"
proof (cases "map_of gc u")
  case None
  then have "u \<notin> fst ` set (deref \<sigma> gc)"
    using deref_keys [of \<sigma> gc] by (metis map_of_eq_None_iff set_map)
  then show ?thesis using None by (simp add: del_edge_alt map_entry_absent)
next
  case (Some r)
  then have "r \<in> snd ` set gc" by (auto dest: map_of_SomeD intro: rev_image_eqI)
  then have "r < length \<sigma>" using assms(2) by blast
  then show ?thesis using Some deref_update [OF assms(1) Some] by (simp add: del_edge_alt)
qed

lemma second_step_result:
  assumes "wf_store \<sigma> G"
  shows "\<exists>\<sigma>'. second_step G s e sp i (\<sigma>, best) =
            (\<sigma>', better sp (candidate (deref \<sigma> G) s e sp i) best) \<and>
          take (length \<sigma>) \<sigma>' = \<sigma>"
proof -
  define u where "u = sp ! i"
  define v where "v = sp ! (i + 1)"
  obtain \<sigma>1 gc where c: "copy_graph \<sigma> G = (\<sigma>1, gc)" by (cases "copy_graph \<sigma> G")
  define \<sigma>2 where "\<sigma>2 = del_edge \<sigma>1 gc u v"
  define \<sigma>3 where "\<sigma>3 = del_edge \<sigma>2 gc v u"
  have cp: "take (length \<sigma>) \<sigma>1 = \<sigma>" "deref \<sigma>1 gc = deref \<sigma> G" "distinct (map snd gc)"
    "\<forall>r \<in> snd ` set gc. length \<sigma> \<le> r \<and> r < length \<sigma>1"
    using copy_graph_props [OF assms c] by simp_all
  have lo: "\<forall>r \<in> snd ` set gc. length \<sigma> \<le> r" and hi1: "\<forall>r \<in> snd ` set gc. r < length \<sigma>1"
    using cp(4) by blast+
  have len2: "length \<sigma>2 = length \<sigma>1"
    unfolding \<sigma>2_def by (rule del_edge_frame(2) [OF lo])
  have hi2: "\<forall>r \<in> snd ` set gc. r < length \<sigma>2" using hi1 len2 by simp
  have d2: "deref \<sigma>2 gc = AList.map_entry u (AList.delete v) (deref \<sigma> G)"
    unfolding \<sigma>2_def using del_edge_deref [OF cp(3) hi1] cp(2) by simp
  have d3: "deref \<sigma>3 gc = remove_edge (deref \<sigma> G) u v"
    unfolding \<sigma>3_def using del_edge_deref [OF cp(3) hi2] d2 by (simp add: remove_edge_def)
  have t3: "take (length \<sigma>) \<sigma>3 = \<sigma>"
    unfolding \<sigma>3_def \<sigma>2_def using del_edge_frame(1) [OF lo] cp(1) by simp
  have "second_step G s e sp i (\<sigma>, best) =
          (\<sigma>3, better sp (dijkstra (deref \<sigma>3 gc) s e) best)"
    by (cases best; cases "dijkstra (deref \<sigma>3 gc) s e")
      (simp add: second_step_def c Let_def better_def u_def v_def \<sigma>2_def \<sigma>3_def)
  then show ?thesis using d3 t3 by (auto simp: candidate_def u_def v_def)
qed

lemma second_loop_result:
  assumes "wf_store \<sigma> G"
  shows "\<exists>\<sigma>'. second_loop G s e sp is (\<sigma>, best) =
            (\<sigma>', fold (\<lambda>i. better sp (candidate (deref \<sigma> G) s e sp i)) is best) \<and>
          take (length \<sigma>) \<sigma>' = \<sigma>"
  using assms
proof (induction "is" arbitrary: \<sigma> best)
  case Nil
  then show ?case by simp
next
  case (Cons i "is")
  let ?best = "better sp (candidate (deref \<sigma> G) s e sp i) best"
  obtain \<sigma>1 where s1: "second_step G s e sp i (\<sigma>, best) = (\<sigma>1, ?best)"
    and t1: "take (length \<sigma>) \<sigma>1 = \<sigma>"
    using second_step_result [OF Cons.prems] by blast
  have wf1: "wf_store \<sigma>1 G" and d1: "deref \<sigma>1 G = deref \<sigma> G"
    using frame_keeps [OF t1 Cons.prems] by simp_all
  obtain \<sigma>' where l: "second_loop G s e sp is (\<sigma>1, ?best) =
      (\<sigma>', fold (\<lambda>i. better sp (candidate (deref \<sigma>1 G) s e sp i)) is ?best)"
    and t': "take (length \<sigma>1) \<sigma>' = \<sigma>1"
    using Cons.IH [OF wf1] by blast
  have "length \<sigma> \<le> length \<sigma>1" using t1 by (metis length_take min.cobounded1)
  then have "take (length \<sigma>) \<sigma>' = \<sigma>"
    using t1 t' by (metis min.absorb1 take_take)
  then show ?case using s1 l d1 by simp
qed

section \<open>Graphs with an edge deleted\<close>

lemma weight_map_entry_delete:
  "weight (AList.map_entry k (AList.delete x) g) a b =
     (if a = k \<and> b = x then None else weight g a b)"
proof (cases "map_of g a")
  case None
  then have "map_of (AList.map_entry k (AList.delete x) g) a = None"
    by (auto simp: map_of_map_entry)
  then show ?thesis using None by (simp add: weight_def)
next
  case (Some nbrs)
  show ?thesis
  proof (cases "a = k")
    case True
    then have "map_of (AList.map_entry k (AList.delete x) g) a = Some (AList.delete x nbrs)"
      using Some by (simp add: map_of_map_entry)
    then show ?thesis using Some True by (simp add: weight_def delete_conv')
  next
    case False
    then have "map_of (AList.map_entry k (AList.delete x) g) a = Some nbrs"
      using Some by (simp add: map_of_map_entry)
    then show ?thesis using Some False by (simp add: weight_def)
  qed
qed

lemma weight_remove_edge:
  "weight (remove_edge g u v) a b =
     (if a = v \<and> b = u then None else if a = u \<and> b = v then None else weight g a b)"
  unfolding remove_edge_def
  by (subst weight_map_entry_delete, subst weight_map_entry_delete, rule refl)

lemma weight_remove_edge_Some:
  assumes "weight (remove_edge g u v) a b = Some w"
  shows "weight g a b = Some w"
  using assms weight_remove_edge [of g u v a b] by (metis option.distinct(1))

lemma path_in_larger:
  assumes "\<And>a b w. weight g' a b = Some w \<Longrightarrow> weight g a b = Some w"
  shows "is_path g' p \<Longrightarrow> is_path g p \<and> path_cost g p = path_cost g' p"
proof (induction p rule: induct_list012)
  case 1
  then show ?case by simp
next
  case (2 x)
  then show ?case by simp
next
  case (3 x y zs)
  then obtain w where "weight g' x y = Some w" by auto
  then have "weight g' x y = Some w" "weight g x y = Some w" using assms by simp_all
  then show ?case using 3 by simp
qed

lemma path_before_removal:
  assumes "path_from_to (remove_edge g u v) s e p"
  shows "path_from_to g s e p \<and> path_cost g p = path_cost (remove_edge g u v) p"
proof -
  have "is_path g p \<and> path_cost g p = path_cost (remove_edge g u v) p"
  proof (rule path_in_larger)
    show "is_path (remove_edge g u v) p" using assms by (simp add: path_from_to_def)
    show "weight g a b = Some w" if "weight (remove_edge g u v) a b = Some w" for a b w
      using that by (rule weight_remove_edge_Some)
  qed
  then show ?thesis using assms by (simp add: path_from_to_def)
qed

lemma map_entry_values:
  "snd ` set (AList.map_entry k f xs) \<subseteq> snd ` set xs \<union> f ` snd ` set xs"
  by (induction xs) auto

lemma wf_graph_map_entry:
  assumes "wf_graph g"
  shows "wf_graph (AList.map_entry k (AList.delete x) g)"
proof -
  have keys: "distinct (map fst g)"
    and inner: "\<And>old. old \<in> snd ` set g \<Longrightarrow> distinct (map fst old)"
    using assms unfolding wf_graph_def by blast+
  have "distinct (map fst (AList.map_entry k (AList.delete x) g))"
    using keys by (rule distinct_map_entry)
  moreover have "distinct (map fst nbrs)"
    if n: "nbrs \<in> snd ` set (AList.map_entry k (AList.delete x) g)" for nbrs
  proof -
    from n have "nbrs \<in> snd ` set g \<or> nbrs \<in> AList.delete x ` snd ` set g"
      using map_entry_values [of k "AList.delete x" g] by blast
    then show ?thesis
    proof
      assume "nbrs \<in> snd ` set g"
      then show ?thesis by (rule inner)
    next
      assume "nbrs \<in> AList.delete x ` snd ` set g"
      then obtain old where o: "old \<in> snd ` set g" and e: "nbrs = AList.delete x old"
        by blast
      have "distinct (map fst (AList.delete x old))"
        using inner [OF o] by (rule distinct_delete)
      then show ?thesis by (simp only: e)
    qed
  qed
  ultimately show ?thesis unfolding wf_graph_def by blast
qed

lemma nonneg_map_entry:
  assumes "nonneg g"
  shows "nonneg (AList.map_entry k (AList.delete x) g)"
proof -
  have pos: "\<And>old w. old \<in> snd ` set g \<Longrightarrow> w \<in> snd ` set old \<Longrightarrow> 0 \<le> w"
    using assms unfolding nonneg_def by blast
  have sub: "set (AList.delete x old) \<subseteq> set old" for old :: adjacency
    unfolding AList.delete_eq by (rule filter_is_subset)
  have "0 \<le> w"
    if n: "nbrs \<in> snd ` set (AList.map_entry k (AList.delete x) g)"
      and w: "w \<in> snd ` set nbrs" for nbrs w
  proof -
    from n have "nbrs \<in> snd ` set g \<or> nbrs \<in> AList.delete x ` snd ` set g"
      using map_entry_values [of k "AList.delete x" g] by blast
    then show ?thesis
    proof
      assume "nbrs \<in> snd ` set g"
      then show ?thesis using w by (rule pos)
    next
      assume "nbrs \<in> AList.delete x ` snd ` set g"
      then obtain old where o: "old \<in> snd ` set g" and e: "nbrs = AList.delete x old"
        by blast
      have "w \<in> snd ` set old" using w sub [of old] unfolding e by blast
      with o show ?thesis by (rule pos)
    qed
  qed
  then show ?thesis unfolding nonneg_def by blast
qed

lemma wf_graph_remove_edge: "wf_graph g \<Longrightarrow> wf_graph (remove_edge g u v)"
  by (simp add: remove_edge_def wf_graph_map_entry)

lemma nonneg_remove_edge: "nonneg g \<Longrightarrow> nonneg (remove_edge g u v)"
  by (simp add: remove_edge_def nonneg_map_entry)

lemma cost_less_finite: "cost_less a b \<Longrightarrow> \<exists>c. a = Finite c"
  by (cases a) auto

lemma fold_better:
  "fold (\<lambda>i. better sp (cand i)) is best = best \<or>
   (\<exists>i \<in> set is. fold (\<lambda>i. better sp (cand i)) is best = cand i \<and> snd (cand i) \<noteq> sp \<and>
      (\<exists>c. fst (cand i) = Finite c))"
proof (induction "is" arbitrary: best)
  case Nil
  then show ?case by simp
next
  case (Cons i "is")
  have step: "better sp (cand i) best = best \<or>
      (better sp (cand i) best = cand i \<and> snd (cand i) \<noteq> sp \<and> (\<exists>c. fst (cand i) = Finite c))"
    by (auto simp: better_def dest: cost_less_finite)
  show ?case
    using Cons.IH [of "better sp (cand i) best"] step by auto
qed

lemma find_second_result:
  assumes "wf_store \<sigma> G"
  shows "\<exists>\<sigma>'. find_second_shortest_path \<sigma> G s e =
           (\<sigma>', if snd (dijkstra (deref \<sigma> G) s e) = [] then (Infinity, [])
                else fold (\<lambda>i. better (snd (dijkstra (deref \<sigma> G) s e))
                                 (candidate (deref \<sigma> G) s e (snd (dijkstra (deref \<sigma> G) s e)) i))
                       [0 ..< length (snd (dijkstra (deref \<sigma> G) s e)) - 1] (Infinity, [])) \<and>
         take (length \<sigma>) \<sigma>' = \<sigma>"
proof (cases "dijkstra (deref \<sigma> G) s e")
  case (Pair c1 p1)
  show ?thesis
  proof (cases "p1 = []")
    case True
    then show ?thesis using Pair by (simp add: find_second_shortest_path_def)
  next
    case False
    then show ?thesis
      using Pair second_loop_result [OF assms, of s e p1 "[0 ..< length p1 - 1]" "(Infinity, [])"]
      by (simp add: find_second_shortest_path_def)
  qed
qed

lemma store_of_wf: "wf_store (store_of g) (refs_of g)"
  by (auto simp: wf_store_def store_of_def refs_of_def dest: set_zip_rightD)

lemma store_of_deref: "deref (store_of g) (refs_of g) = g"
  by (rule nth_equalityI) (simp_all add: deref_def store_of_def refs_of_def)

lemma sample_optimum:
  "dijkstra (deref (store_of sample_graph) (refs_of sample_graph)) ''A'' ''G'' =
     (Finite 5, [''A'', ''B'', ''C'', ''D'', ''G''])"
  by (simp only: store_of_deref sample_A_G)

lemma sample_second:
  "snd (find_second_shortest_path (store_of sample_graph) (refs_of sample_graph) ''A'' ''G'') =
     (Finite 6, [''A'', ''C'', ''D'', ''G''])"
  by code_simp

lemma two_components_stored:
  "snd (dijkstra (deref (store_of two_components) (refs_of two_components)) ''A'' ''C'') = []"
  using dijkstra_no_path [OF two_components_no_path] by (simp only: store_of_deref snd_conv)

lemma chain_cut:
  "remove_edge chain ''B'' ''C'' = [(''A'', [(''B'', 1)]), (''B'', [(''A'', 1)]), (''C'', [])]"
  by code_simp

lemma chain_cut_no_path:
  "\<not> (\<exists>q. path_from_to
      (remove_edge (deref (store_of chain) (refs_of chain))
         ([''A'', ''B'', ''C''] ! 1) ([''A'', ''B'', ''C''] ! (1 + 1))) ''A'' ''C'' q)"
proof
  let ?g = "[(''A'', [(''B'', 1)]), (''B'', [(''A'', 1)]), (''C'', [])] :: graph"
  assume "\<exists>q. path_from_to
      (remove_edge (deref (store_of chain) (refs_of chain))
         ([''A'', ''B'', ''C''] ! 1) ([''A'', ''B'', ''C''] ! (1 + 1))) ''A'' ''C'' q"
  then obtain q where "path_from_to ?g ''A'' ''C'' q"
    by (auto simp: store_of_deref chain_cut)
  then have "\<exists>u. weight ?g u ''C'' \<noteq> None" by (rule path_enters) simp
  moreover have "weight ?g u ''C'' = None" for u
    by (rule not_neighbor_no_weight) simp
  ultimately show False by simp
qed

text \<open>
  On the chain the search for an alternative from A to C allocates two copies of the
  three inner dictionaries after the original ones and deletes from the copies only.
\<close>

lemma chain_store_after:
  "fst (find_second_shortest_path (store_of chain) (refs_of chain) ''A'' ''C'') =
     store_of chain @
     [[], [(''C'', 2)], [(''B'', 2)],
      [(''B'', 1)], [(''A'', 1)], []]"
  by code_simp

section \<open>A bound on the number of iterations\<close>

lemma push_fold_length:
  "length (fold (\<lambda>(v, w) h. if v \<notin> V then heappush h (c + w, v, p @ [v]) else h) nbrs heap)
     \<le> length heap + length nbrs"
proof (induction nbrs arbitrary: heap)
  case Nil
  show ?case by simp
next
  case (Cons a nbrs)
  obtain v w where a: "a = (v, w)" by (cases a)
  show ?case
    using Cons.IH [of "heappush heap (c + w, v, p @ [v])"] Cons.IH [of heap]
    by (cases "v \<in> V") (simp_all add: a heappush_def)
qed

lemma explore_length: "length (explore g V c n p heap) \<le> length heap + degree g n"
  by (simp add: explore_def degree_def push_fold_length split: option.split)

lemma pending_visit:
  assumes "n \<notin> V"
  shows "pending g (insert n V) + degree g n = pending g V"
proof (cases "n \<in> fst ` set g")
  case True
  have "fst ` set g - insert n V = (fst ` set g - V) - {n}" by auto
  moreover have "sum (degree g) (fst ` set g - V) =
      degree g n + sum (degree g) ((fst ` set g - V) - {n})"
    by (rule sum.remove) (use True assms in auto)
  ultimately show ?thesis by (simp add: pending_def)
next
  case False
  then have "map_of g n = None" by (simp add: map_of_eq_None_iff)
  moreover have "fst ` set g - insert n V = fst ` set g - V" using False by auto
  ultimately show ?thesis by (simp add: pending_def degree_def)
qed

lemma fuel_suffices:
  "length heap + pending g V < fuel \<Longrightarrow>
   dijkstra_fuel fuel g d heap V = Some (dijkstra_loop g d heap V)"
proof (induction g d heap V arbitrary: fuel rule: dijkstra_loop.induct)
  case (1 g d heap V)
  obtain k where fuel: "fuel = Suc k" using "1.prems" by (cases fuel) auto
  show ?case
  proof (cases "heap = []")
    case True
    then show ?thesis by (simp add: fuel loop_empty)
  next
    case ne: False
    obtain c n p heap' where pop: "heappop heap = ((c, n, p), heap')"
      by (metis prod_cases3 surj_pair)
    have shorter: "length heap' < length heap" using ne pop by (rule heappop_length)
    show ?thesis
    proof (cases "n = d")
      case True
      then show ?thesis using ne pop loop_found [OF ne, of c d p heap' g V] by (simp add: fuel)
    next
      case nd: False
      show ?thesis
      proof (cases "n \<in> V")
        case True
        have "length heap' + pending g V < k" using "1.prems" shorter by (simp add: fuel)
        then have "dijkstra_fuel k g d heap' V = Some (dijkstra_loop g d heap' V)"
          by (rule "1.IH"(1) [OF ne pop [symmetric] refl refl nd True])
        then show ?thesis
          using ne pop nd True loop_skip [OF ne pop nd True] by (simp add: fuel)
      next
        case False
        let ?V = "insert n V"
        let ?h = "explore g ?V c n p heap'"
        have "length ?h + pending g ?V \<le> length heap' + (pending g ?V + degree g n)"
          using explore_length [of g ?V c n p heap'] by simp
        also have "\<dots> = length heap' + pending g V"
          using pending_visit [OF False] by simp
        finally have "length ?h + pending g ?V < k"
          using "1.prems" shorter by (simp add: fuel)
        then have "dijkstra_fuel k g d ?h ?V = Some (dijkstra_loop g d ?h ?V)"
          by (rule "1.IH"(2) [OF ne pop [symmetric] refl refl nd False])
        then show ?thesis
          using ne pop nd False loop_visit [OF ne pop nd False] by (simp add: fuel)
      qed
    qed
  qed
qed

lemma sample_fuel: "length [(0::int, ''A'', [''A''])] + pending sample_graph {} < 40"
  by code_simp

section \<open>Results on the search\<close>

text \<open>
  C7.  For every graph and every node identifier \<open>s\<close>, whether or not it is a key of the
  graph, \<open>dijkstra graph s s\<close> returns cost 0 and the path \<open>[s]\<close>: the seed entry is
  extracted first and its node is the destination.  No condition on the weights is
  needed.
\<close>

theorem dijkstra_same_node: "dijkstra g s s = (Finite 0, [s])"
  unfolding dijkstra_def by (rule loop_found [OF _ heappop_single]) simp

text \<open>
  C3, as the code computes it.  On the sample graph \<open>dijkstra graph 'A' 'G'\<close> returns the
  path A, B, C, D, G, whose cost is 1 + 2 + 1 + 1 = 5.
\<close>

theorem dijkstra_sample_A_G:
  "dijkstra sample_graph ''A'' ''G'' = (Finite 5, [''A'', ''B'', ''C'', ''D'', ''G''])"
  by (rule sample_A_G)

text \<open>The cost returned for A and G on the sample graph is not 6.\<close>

theorem dijkstra_sample_A_G_not_6:
  "dijkstra sample_graph ''A'' ''G'' \<noteq> (Finite 6, [''A'', ''B'', ''C'', ''D'', ''G''])"
  by (simp add: sample_A_G)

text \<open>
  C1.  For every graph with non-negative weights and every pair of nodes joined by at
  least one path, \<open>dijkstra\<close> returns a finite cost and a path from the start node to the
  end node; the path has that cost, and no path between the two nodes is cheaper.
\<close>

theorem dijkstra_optimal:
  assumes "wf_graph g" and "nonneg g" and "path_from_to g s e q"
  shows "\<exists>c p. dijkstra g s e = (Finite c, p) \<and> path_from_to g s e p \<and> path_cost g p = c \<and>
           (\<forall>q'. path_from_to g s e q' \<longrightarrow> c \<le> path_cost g q')"
proof -
  obtain c p where r: "dijkstra g s e = (Finite c, p)"
    using dijkstra_complete [OF assms(2,3)] by blast
  have "path_from_to g s e p" "path_cost g p = c"
    using dijkstra_sound [OF r] assms(1) by simp_all
  moreover have "c \<le> path_cost g q'" if "path_from_to g s e q'" for q'
    using dijkstra_complete [OF assms(2) that] r by simp
  ultimately show ?thesis using r by blast
qed

theorem dijkstra_optimal_witness:
  "wf_graph sample_graph \<and> nonneg sample_graph \<and>
   path_from_to sample_graph ''A'' ''G'' [''A'', ''C'', ''D'', ''G''] \<and>
   (\<exists>c p. dijkstra sample_graph ''A'' ''G'' = (Finite c, p) \<and>
      path_from_to sample_graph ''A'' ''G'' p \<and> path_cost sample_graph p = c \<and>
      (\<forall>q'. path_from_to sample_graph ''A'' ''G'' q' \<longrightarrow> c \<le> path_cost sample_graph q'))"
  using sample_wf sample_nonneg sample_path_A_C_D_G
    dijkstra_optimal [OF sample_wf sample_nonneg sample_path_A_C_D_G]
  by simp

text \<open>
  C6.  For every graph and every pair of nodes with no path from the first to the
  second, \<open>dijkstra\<close> returns the unreachable result: infinite cost and the empty path.
\<close>

theorem dijkstra_unreachable:
  assumes "\<not> (\<exists>q. path_from_to g s e q)"
  shows "dijkstra g s e = (Infinity, [])"
  using assms by (rule dijkstra_no_path)

theorem dijkstra_unreachable_witness:
  "\<not> (\<exists>q. path_from_to two_components ''A'' ''C'' q) \<and>
   dijkstra two_components ''A'' ''C'' = (Infinity, [])"
  using two_components_no_path dijkstra_unreachable [OF two_components_no_path] by simp

text \<open>
  C10.  Every finite-cost result \<open>(cost, path)\<close> of \<open>dijkstra\<close> on a dictionary graph is
  a path that begins with the start node, ends with the end node, repeats no node and
  steps along entries of the adjacency mappings only, and \<open>cost\<close> is the sum of the
  weights of those entries.
\<close>

theorem dijkstra_result_simple_path:
  assumes "wf_graph g" and "dijkstra g s e = (Finite c, p)"
  shows "p \<noteq> [] \<and> hd p = s \<and> last p = e \<and> distinct p \<and> is_path g p \<and> path_cost g p = c"
  using dijkstra_sound [OF assms(2)] assms(1) is_path_nonempty [of g p]
  by (simp add: path_from_to_def)

theorem dijkstra_result_simple_path_witness:
  "wf_graph sample_graph \<and>
   dijkstra sample_graph ''A'' ''G'' = (Finite 5, [''A'', ''B'', ''C'', ''D'', ''G'']) \<and>
   [''A'', ''B'', ''C'', ''D'', ''G''] \<noteq> [] \<and>
   hd [''A'', ''B'', ''C'', ''D'', ''G''] = ''A'' \<and>
   last [''A'', ''B'', ''C'', ''D'', ''G''] = ''G'' \<and>
   distinct [''A'', ''B'', ''C'', ''D'', ''G''] \<and>
   is_path sample_graph [''A'', ''B'', ''C'', ''D'', ''G''] \<and>
   path_cost sample_graph [''A'', ''B'', ''C'', ''D'', ''G''] = 5"
  using sample_wf sample_A_G dijkstra_result_simple_path [OF sample_wf sample_A_G]
  by blast

text \<open>
  C4, as the code behaves.  When the start node differs from the end node and either
  the start node is not a key of the graph, or the end node occurs nowhere in the graph
  (neither as a key nor as a neighbour), \<open>dijkstra\<close> returns the unreachable result.
\<close>

theorem dijkstra_absent_node:
  assumes "s \<noteq> e"
    and "map_of g s = None \<or>
         (map_of g e = None \<and> (\<forall>nbrs \<in> snd ` set g. e \<notin> fst ` set nbrs))"
  shows "dijkstra g s e = (Infinity, [])"
proof (rule dijkstra_no_path, rule notI, erule exE)
  fix q assume q: "path_from_to g s e q"
  from assms(2) show False
  proof
    assume "map_of g s = None"
    then show False using path_leaves [OF q assms(1)] by simp
  next
    assume "map_of g e = None \<and> (\<forall>nbrs \<in> snd ` set g. e \<notin> fst ` set nbrs)"
    then have "weight g u e = None" for u using not_neighbor_no_weight by blast
    then show False using path_enters [OF q assms(1)] by simp
  qed
qed

theorem dijkstra_absent_node_witness:
  "''A'' \<noteq> ''Z'' \<and>
   (map_of sample_graph ''A'' = None \<or>
    (map_of sample_graph ''Z'' = None \<and>
     (\<forall>nbrs \<in> snd ` set sample_graph. ''Z'' \<notin> fst ` set nbrs))) \<and>
   dijkstra sample_graph ''A'' ''Z'' = (Infinity, []) \<and>
   ''Z'' \<noteq> ''A'' \<and> map_of sample_graph ''Z'' = None \<and>
   dijkstra sample_graph ''Z'' ''A'' = (Infinity, [])"
proof -
  have ne: "''A'' \<noteq> ''Z''" by simp
  have z: "map_of sample_graph ''Z'' = None" using sample_no_Z by simp
  have h: "map_of sample_graph ''A'' = None \<or>
      (map_of sample_graph ''Z'' = None \<and>
       (\<forall>nbrs \<in> snd ` set sample_graph. ''Z'' \<notin> fst ` set nbrs))"
    using sample_no_Z by simp
  have "dijkstra sample_graph ''A'' ''Z'' = (Infinity, [])"
    using ne h by (rule dijkstra_absent_node)
  moreover have "dijkstra sample_graph ''Z'' ''A'' = (Infinity, [])"
    using ne z by (intro dijkstra_absent_node) simp_all
  ultimately show ?thesis using ne h z by simp
qed

text \<open>
  A start node without an entry is still reached when it is the end node, and an end
  node without an entry is reached when it is listed as a neighbour.
\<close>

theorem dijkstra_absent_node_reached:
  "map_of ([] :: graph) ''A'' = None \<and>
   dijkstra [] ''A'' ''A'' = (Finite 0, [''A'']) \<and>
   map_of [(''A'', [(''Z'', 1)])] ''Z'' = None \<and>
   dijkstra [(''A'', [(''Z'', 1)])] ''A'' ''Z'' = (Finite 1, [''A'', ''Z''])"
  by code_simp

section \<open>Results on the second shortest path\<close>

text \<open>
  C2.  On a dictionary graph with non-negative weights, whenever
  \<open>find_second_shortest_path\<close> returns a non-empty path, that path differs from the path
  of \<open>dijkstra\<close>, its cost is finite and at least the shortest cost, and for some index
  \<open>i\<close> it is a path of minimal cost from the start node to the end node in the graph
  without the edge between the nodes \<open>i\<close> and \<open>i + 1\<close> of the primary path (deleted in both
  directions).
\<close>

theorem second_path_spec:
  assumes "wf_store \<sigma> G" and "wf_graph (deref \<sigma> G)" and "nonneg (deref \<sigma> G)"
    and "dijkstra (deref \<sigma> G) s e = (c1, p1)"
    and "snd (find_second_shortest_path \<sigma> G s e) = (c2, p2)" and "p2 \<noteq> []"
  shows "p2 \<noteq> p1 \<and>
    (\<exists>a b. c1 = Finite a \<and> c2 = Finite b \<and> a \<le> b \<and>
      (\<exists>i. i + 1 < length p1 \<and>
         path_from_to (remove_edge (deref \<sigma> G) (p1 ! i) (p1 ! (i + 1))) s e p2 \<and>
         path_cost (remove_edge (deref \<sigma> G) (p1 ! i) (p1 ! (i + 1))) p2 = b \<and>
         (\<forall>q. path_from_to (remove_edge (deref \<sigma> G) (p1 ! i) (p1 ! (i + 1))) s e q \<longrightarrow>
              b \<le> path_cost (remove_edge (deref \<sigma> G) (p1 ! i) (p1 ! (i + 1))) q)))"
proof -
  define g where "g = deref \<sigma> G"
  let ?cand = "candidate g s e p1"
  let ?R = "fold (\<lambda>i. better p1 (?cand i)) [0 ..< length p1 - 1] (Infinity, [])"
  have res: "(c2, p2) = (if p1 = [] then (Infinity, []) else ?R)"
    using find_second_result [OF assms(1), of s e] assms(4,5) by (auto simp: g_def)
  then have ne: "p1 \<noteq> []" and R: "?R = (c2, p2)" using assms(6) by (auto split: if_splits)
  have "?R \<noteq> (Infinity, [])" using R assms(6) by simp
  then obtain i b where i: "i \<in> set [0 ..< length p1 - 1]" and ci: "?R = ?cand i"
    and diff: "snd (?cand i) \<noteq> p1" and fin: "fst (?cand i) = Finite b"
    using fold_better [of p1 ?cand "[0 ..< length p1 - 1]" "(Infinity, [])"] by blast
  define g' where "g' = remove_edge g (p1 ! i) (p1 ! (i + 1))"
  have d': "dijkstra g' s e = (Finite b, p2)"
    using ci R fin by (simp add: candidate_def g'_def)
  have c2: "c2 = Finite b" and neq: "p2 \<noteq> p1" using ci R fin diff by auto
  have wf': "wf_graph g'" and nn': "nonneg g'"
    using assms(2,3) by (simp_all add: g'_def g_def wf_graph_remove_edge nonneg_remove_edge)
  have p': "path_from_to g' s e p2" and cost': "path_cost g' p2 = b"
    using dijkstra_sound [OF d'] wf' by simp_all
  have least: "b \<le> path_cost g' q" if "path_from_to g' s e q" for q
    using dijkstra_complete [OF nn' that] d' by simp
  have "path_from_to g s e p2 \<and> path_cost g p2 = b"
    using path_before_removal [of g "p1 ! i" "p1 ! (i + 1)" s e p2] p' cost' by (simp add: g'_def)
  then obtain a where "c1 = Finite a" "a \<le> b"
    using dijkstra_complete [of g s e p2] assms(3,4) by (auto simp: g_def)
  moreover have "i + 1 < length p1" using i by auto
  ultimately show ?thesis
    using neq c2 p' cost' least unfolding g'_def g_def by blast
qed

theorem second_path_spec_witness:
  "wf_store (store_of sample_graph) (refs_of sample_graph) \<and>
   wf_graph (deref (store_of sample_graph) (refs_of sample_graph)) \<and>
   nonneg (deref (store_of sample_graph) (refs_of sample_graph)) \<and>
   dijkstra (deref (store_of sample_graph) (refs_of sample_graph)) ''A'' ''G'' =
     (Finite 5, [''A'', ''B'', ''C'', ''D'', ''G'']) \<and>
   snd (find_second_shortest_path (store_of sample_graph) (refs_of sample_graph) ''A'' ''G'') =
     (Finite 6, [''A'', ''C'', ''D'', ''G'']) \<and>
   [''A'', ''C'', ''D'', ''G''] \<noteq> [] \<and>
   [''A'', ''C'', ''D'', ''G''] \<noteq> [''A'', ''B'', ''C'', ''D'', ''G''] \<and>
   (\<exists>a b. Finite 5 = Finite a \<and> Finite 6 = Finite b \<and> a \<le> b \<and>
      (\<exists>i. i + 1 < length [''A'', ''B'', ''C'', ''D'', ''G''] \<and>
         path_from_to
           (remove_edge (deref (store_of sample_graph) (refs_of sample_graph))
              ([''A'', ''B'', ''C'', ''D'', ''G''] ! i) ([''A'', ''B'', ''C'', ''D'', ''G''] ! (i + 1)))
           ''A'' ''G'' [''A'', ''C'', ''D'', ''G''] \<and>
         path_cost
           (remove_edge (deref (store_of sample_graph) (refs_of sample_graph))
              ([''A'', ''B'', ''C'', ''D'', ''G''] ! i) ([''A'', ''B'', ''C'', ''D'', ''G''] ! (i + 1)))
           [''A'', ''C'', ''D'', ''G''] = b \<and>
         (\<forall>q. path_from_to
                (remove_edge (deref (store_of sample_graph) (refs_of sample_graph))
                   ([''A'', ''B'', ''C'', ''D'', ''G''] ! i)
                   ([''A'', ''B'', ''C'', ''D'', ''G''] ! (i + 1)))
                ''A'' ''G'' q \<longrightarrow>
              b \<le> path_cost
                    (remove_edge (deref (store_of sample_graph) (refs_of sample_graph))
                       ([''A'', ''B'', ''C'', ''D'', ''G''] ! i)
                       ([''A'', ''B'', ''C'', ''D'', ''G''] ! (i + 1)))
                    q)))"
proof -
  have h1: "wf_store (store_of sample_graph) (refs_of sample_graph)" by (rule store_of_wf)
  have h2: "wf_graph (deref (store_of sample_graph) (refs_of sample_graph))"
    by (simp only: store_of_deref sample_wf)
  have h3: "nonneg (deref (store_of sample_graph) (refs_of sample_graph))"
    by (simp only: store_of_deref sample_nonneg)
  have h6: "[''A'', ''C'', ''D'', ''G''] \<noteq> []" by simp
  show ?thesis
    using h1 h2 h3 sample_optimum sample_second h6
      second_path_spec [OF h1 h2 h3 sample_optimum sample_second h6]
    by blast
qed

text \<open>
  C5.  When \<open>dijkstra\<close> returns the empty path, \<open>find_second_shortest_path\<close> returns the
  unreachable result at once, leaving the store as it is.  In the loop, an iteration
  whose deletion leaves no path from the start node to the end node keeps the best
  alternative found so far.
\<close>

theorem second_unreachable:
  "(snd (dijkstra (deref \<sigma> G) s e) = [] \<longrightarrow>
      find_second_shortest_path \<sigma> G s e = (\<sigma>, Infinity, [])) \<and>
   (wf_store \<sigma> G \<and>
    \<not> (\<exists>q. path_from_to (remove_edge (deref \<sigma> G) (sp ! i) (sp ! (i + 1))) s e q) \<longrightarrow>
      snd (second_step G s e sp i (\<sigma>, bc, bp)) = (bc, bp))"
proof (intro conjI impI)
  assume "snd (dijkstra (deref \<sigma> G) s e) = []"
  then show "find_second_shortest_path \<sigma> G s e = (\<sigma>, Infinity, [])"
    by (cases "dijkstra (deref \<sigma> G) s e") (simp add: find_second_shortest_path_def)
next
  assume a: "wf_store \<sigma> G \<and>
    \<not> (\<exists>q. path_from_to (remove_edge (deref \<sigma> G) (sp ! i) (sp ! (i + 1))) s e q)"
  then have "candidate (deref \<sigma> G) s e sp i = (Infinity, [])"
    unfolding candidate_def by (intro dijkstra_no_path) simp
  then have "better sp (candidate (deref \<sigma> G) s e sp i) (bc, bp) = (bc, bp)"
    by (simp add: better_def)
  then show "snd (second_step G s e sp i (\<sigma>, bc, bp)) = (bc, bp)"
    using second_step_result [of \<sigma> G s e sp i "(bc, bp)"] a by auto
qed

theorem second_unreachable_witness:
  "snd (dijkstra (deref (store_of two_components) (refs_of two_components)) ''A'' ''C'') = [] \<and>
   find_second_shortest_path (store_of two_components) (refs_of two_components) ''A'' ''C'' =
     (store_of two_components, Infinity, []) \<and>
   wf_store (store_of chain) (refs_of chain) \<and>
   \<not> (\<exists>q. path_from_to
      (remove_edge (deref (store_of chain) (refs_of chain))
         ([''A'', ''B'', ''C''] ! 1) ([''A'', ''B'', ''C''] ! (1 + 1))) ''A'' ''C'' q) \<and>
   snd (second_step (refs_of chain) ''A'' ''C'' [''A'', ''B'', ''C''] 1
          (store_of chain, Finite 9, [''A'', ''X'', ''C''])) = (Finite 9, [''A'', ''X'', ''C''])"
  using two_components_stored store_of_wf [of chain] chain_cut_no_path
    second_unreachable [of "store_of two_components" "refs_of two_components" "''A''" "''C''"]
    second_unreachable [of "store_of chain" "refs_of chain" "''A''" "''C''"
      "[''A'', ''B'', ''C'']" 1 "Finite 9" "[''A'', ''X'', ''C'']"]
  by blast

text \<open>
  C8.  \<open>find_second_shortest_path\<close> leaves every object that existed before the call
  unchanged: the store it returns extends the old one.  Hence the graph reads the same
  afterwards, \<open>dijkstra\<close> (which only reads) returns the same result on it, and a second
  call returns the same cost and path as the first.
\<close>

theorem find_second_keeps_graph:
  assumes "wf_store \<sigma> G"
  shows "take (length \<sigma>) (fst (find_second_shortest_path \<sigma> G s e)) = \<sigma> \<and>
         deref (fst (find_second_shortest_path \<sigma> G s e)) G = deref \<sigma> G \<and>
         dijkstra (deref (fst (find_second_shortest_path \<sigma> G s e)) G) s e =
           dijkstra (deref \<sigma> G) s e \<and>
         snd (find_second_shortest_path (fst (find_second_shortest_path \<sigma> G s e)) G s e) =
           snd (find_second_shortest_path \<sigma> G s e)"
proof -
  let ?F = "\<lambda>g. if snd (dijkstra g s e) = [] then (Infinity, [])
                else fold (\<lambda>i. better (snd (dijkstra g s e))
                                 (candidate g s e (snd (dijkstra g s e)) i))
                       [0 ..< length (snd (dijkstra g s e)) - 1] (Infinity, [])"
  obtain \<sigma>' where r: "find_second_shortest_path \<sigma> G s e = (\<sigma>', ?F (deref \<sigma> G))"
    and t: "take (length \<sigma>) \<sigma>' = \<sigma>"
    using find_second_result [OF assms, of s e] by blast
  have wf': "wf_store \<sigma>' G" and d: "deref \<sigma>' G = deref \<sigma> G"
    using frame_keeps [OF t assms] by simp_all
  obtain \<sigma>'' where r': "find_second_shortest_path \<sigma>' G s e = (\<sigma>'', ?F (deref \<sigma>' G))"
    using find_second_result [OF wf', of s e] by blast
  have "snd (find_second_shortest_path \<sigma>' G s e) = snd (find_second_shortest_path \<sigma> G s e)"
    by (simp only: r r' d snd_conv)
  then show ?thesis using t d by (simp add: r)
qed

theorem find_second_keeps_graph_witness:
  "wf_store (store_of sample_graph) (refs_of sample_graph) \<and>
   take (length (store_of sample_graph))
     (fst (find_second_shortest_path (store_of sample_graph) (refs_of sample_graph) ''A'' ''G'')) =
     store_of sample_graph \<and>
   deref (fst (find_second_shortest_path (store_of sample_graph) (refs_of sample_graph) ''A'' ''G''))
     (refs_of sample_graph) = deref (store_of sample_graph) (refs_of sample_graph) \<and>
   dijkstra
     (deref (fst (find_second_shortest_path (store_of sample_graph) (refs_of sample_graph) ''A'' ''G''))
        (refs_of sample_graph)) ''A'' ''G'' =
     dijkstra (deref (store_of sample_graph) (refs_of sample_graph)) ''A'' ''G'' \<and>
   snd (find_second_shortest_path
          (fst (find_second_shortest_path (store_of sample_graph) (refs_of sample_graph) ''A'' ''G''))
          (refs_of sample_graph) ''A'' ''G'') =
     snd (find_second_shortest_path (store_of sample_graph) (refs_of sample_graph) ''A'' ''G'')"
  using store_of_wf [of sample_graph]
    find_second_keeps_graph [OF store_of_wf [of sample_graph], of "''A''" "''G''"]
  by blast

text \<open>
  C9.  The search loop terminates on every graph, destination, heap and visited set:
  each iteration either visits a key of the graph that was not visited, or leaves the
  unvisited keys as they are and shortens the heap.  Run with a bound on the iterations
  that exceeds the length of the heap plus the adjacency entries of the unvisited keys,
  the loop returns its result before the bound is reached.  The loop over the edges of
  the primary path terminates as well; it runs once per index.
\<close>

theorem search_terminates:
  assumes "length heap + pending g V < fuel"
  shows "dijkstra_fuel fuel g d heap V = Some (dijkstra_loop g d heap V) \<and>
         dijkstra_loop_dom (g, d, heap, V) \<and> second_loop_dom (G, s, e, sp, is, st)"
proof (intro conjI)
  show "dijkstra_fuel fuel g d heap V = Some (dijkstra_loop g d heap V)"
    using assms by (rule fuel_suffices)
  have "All dijkstra_loop_dom"
  proof (relation "measures [\<lambda>(g, d, h, V). card (fst ` set g - V), \<lambda>(g, d, h, V). length h]",
      goal_cases)
    case 1
    show ?case by simp
  next
    case (2 g d heap V x heap' c y n p)
    then have "heappop heap = ((c, n, p), heap')" by simp
    with 2(1) have "length heap' < length heap" by (rule heappop_length)
    then show ?case by simp
  next
    case (3 g d heap V x heap' c y n p)
    then have pop: "heappop heap = ((c, n, p), heap')" by simp
    show ?case
    proof (cases "n \<in> fst ` set g")
      case True
      have "fst ` set g - insert n V \<subset> fst ` set g - V"
        using True 3(6) by auto
      then have "card (fst ` set g - insert n V) < card (fst ` set g - V)"
        by (intro psubset_card_mono) auto
      then show ?thesis by simp
    next
      case False
      then have "map_of g n = None" by (simp add: map_of_eq_None_iff)
      then have e: "explore g (insert n V) c n p heap' = heap'" by (rule explore_absent)
      have "fst ` set g - insert n V = fst ` set g - V" using False by auto
      moreover have "length heap' < length heap" using 3(1) pop by (rule heappop_length)
      ultimately show ?thesis by (simp add: e)
    qed
  qed
  then show "dijkstra_loop_dom (g, d, heap, V)" by (rule spec)
  have "All second_loop_dom"
    by (relation "measure (\<lambda>(G, s, e, sp, is, st). length is)") auto
  then show "second_loop_dom (G, s, e, sp, is, st)" by (rule spec)
qed

theorem search_terminates_witness:
  "length [(0::int, ''A'', [''A''])] + pending sample_graph {} < 40 \<and>
   dijkstra_fuel 40 sample_graph ''G'' [(0, ''A'', [''A''])] {} =
     Some (dijkstra_loop sample_graph ''G'' [(0, ''A'', [''A''])] {}) \<and>
   dijkstra_loop_dom (sample_graph, ''G'', [(0, ''A'', [''A''])], {}) \<and>
   second_loop_dom ([], ''A'', ''G'', [], [], ([], Infinity, []))"
  using sample_fuel search_terminates [OF sample_fuel, of "''G''" "[]" "''A''" "''G''" "[]" "[]"
      "([], Infinity, [])"]
  by simp

end
